theory Spec2Isabelle
  imports Complex_Main "HOL-Library.AList" "HOL-Library.Char_ord" "HOL-Library.List_Lexorder"
    "HOL-Library.Multiset"
begin

section \<open>Python values shared by the three classes of scaling\_examples.py\<close>

text \<open>
  The exceptions the modelled code can raise, and \<open>InvalidConfiguration\<close>, which the
  specification names. No statement of the source raises the latter.
\<close>

datatype error = StopIteration | ZeroDivisionError | InvalidConfiguration

text \<open>
  A feature mapping is a Python \<open>dict\<close> with string keys: an association list in
  insertion order whose keys are distinct. The values are opaque.
\<close>

type_synonym 'v features = "(string \<times> 'v) list"

text \<open>
  The model is an external collaborator (a fitted estimator). What it answers for one row
  is a parameter, and it answers a frame row by row; \<open>calls\<close> is the trace of the calls
  it has received, each with the rows of the frame it was given. The trace is the only part
  of the model a call changes.
\<close>

datatype 'v call = Predict "'v features list" | PredictProba "'v features list"

record 'v model =
  predict_row :: "'v features \<Rightarrow> int"
  proba_row :: "'v features \<Rightarrow> real list"
  calls :: "'v call list"

definition model_predict :: "'v model \<Rightarrow> 'v features list \<Rightarrow> int list \<times> 'v model" where
  "model_predict m df = (map (predict_row m) df, m\<lparr>calls := calls m @ [Predict df]\<rparr>)"

definition model_predict_proba ::
  "'v model \<Rightarrow> 'v features list \<Rightarrow> real list list \<times> 'v model" where
  "model_predict_proba m df = (map (proba_row m) df, m\<lparr>calls := calls m @ [PredictProba df]\<rparr>)"

section \<open>CachingLayer\<close>

record result =
  prediction :: int
  probability :: "real list"

text \<open>
  \<open>cache\<close> is a Python \<open>dict\<close>, whose iteration order is insertion order: an association
  list. \<open>AList.update\<close> replaces the value of a present key in place and appends an absent
  key at the end, as \<open>d[k] = v\<close> does; \<open>AList.delete\<close> is \<open>del d[k]\<close>.
\<close>

record 'v CachingLayer =
  model :: "'v model"
  cache :: "(string \<times> result) list"
  cache_size :: int
  hits :: int
  misses :: int

definition CachingLayer_init :: "'v model \<Rightarrow> int \<Rightarrow> 'v CachingLayer" where
  "CachingLayer_init m capacity =
     \<lparr>model = m, cache = [], cache_size = capacity, hits = 0, misses = 0\<rparr>"

text \<open>
  \<open>_hash_features\<close>: \<open>hashlib.md5(str(sorted(features.items())).encode()).hexdigest()\<close>.
  The digest of the printed list is the parameter \<open>md5_str\<close>. The keys of a \<open>dict\<close> are
  distinct, so sorting the items compares keys only.
\<close>

definition hash_features :: "('v features \<Rightarrow> string) \<Rightarrow> 'v features \<Rightarrow> string" where
  "hash_features md5_str features = md5_str (sort_key fst features)"

text \<open>
  \<open>predict\<close> returns the value or the exception, and the object as the call leaves it.
  The frame given to the model has one row, so the answers \<open>ps\<close> and \<open>qs\<close> have one
  element each and \<open>[0]\<close> is their head. \<open>next(iter(self.cache))\<close> raises \<open>StopIteration\<close>
  on an empty \<open>dict\<close>; by then the miss has been counted and the model has been called.
\<close>

definition predict ::
  "('v features \<Rightarrow> string) \<Rightarrow> 'v CachingLayer \<Rightarrow> 'v features \<Rightarrow>
     (error + result) \<times> 'v CachingLayer" where
  "predict md5_str self features =
     (let cache_key = hash_features md5_str features in
      case map_of (cache self) cache_key of
        Some r \<Rightarrow> (Inr r, self\<lparr>hits := hits self + 1\<rparr>)
      | None \<Rightarrow>
          (let (ps, m1) = model_predict (model self) [features];
               (qs, m2) = model_predict_proba m1 [features];
               self1 = self\<lparr>misses := misses self + 1, model := m2\<rparr>;
               res = \<lparr>prediction = hd ps, probability = hd qs\<rparr>
           in if cache_size self1 \<le> int (length (cache self1)) then
                (case cache self1 of
                   [] \<Rightarrow> (Inl StopIteration, self1)
                 | oldest # _ \<Rightarrow>
                     (Inr res, self1\<lparr>cache :=
                        AList.update cache_key res (AList.delete (fst oldest) (cache self1))\<rparr>))
              else (Inr res, self1\<lparr>cache := AList.update cache_key res (cache self1)\<rparr>)))"

text \<open>A caller issuing one request after the other, going on after an exception.\<close>

fun run_predicts ::
  "('v features \<Rightarrow> string) \<Rightarrow> 'v CachingLayer \<Rightarrow> 'v features list \<Rightarrow> 'v CachingLayer" where
  "run_predicts md5_str self [] = self"
| "run_predicts md5_str self (f # fs) = run_predicts md5_str (snd (predict md5_str self f)) fs"

text \<open>
  The key that a call inserts: its fingerprint, when the cache does not hold it before the
  call and holds it after. \<open>insertions\<close> lists the keys that successive calls insert.
\<close>

definition inserted_by ::
  "('v features \<Rightarrow> string) \<Rightarrow> 'v CachingLayer \<Rightarrow> 'v features \<Rightarrow> string list" where
  "inserted_by md5_str self f =
     (if map_of (cache self) (hash_features md5_str f) = None
         \<and> map_of (cache (snd (predict md5_str self f))) (hash_features md5_str f) \<noteq> None
      then [hash_features md5_str f] else [])"

fun insertions ::
  "('v features \<Rightarrow> string) \<Rightarrow> 'v CachingLayer \<Rightarrow> 'v features list \<Rightarrow> string list" where
  "insertions md5_str self [] = []"
| "insertions md5_str self (f # fs) =
     inserted_by md5_str self f @ insertions md5_str (snd (predict md5_str self f)) fs"

text \<open>
  \<open>self.hits / total\<close> is Python's true division: it raises on a zero divisor. The float
  it returns is modelled by the exact quotient.
\<close>

definition truediv :: "int \<Rightarrow> int \<Rightarrow> error + real" where
  "truediv a b = (if b = 0 then Inl ZeroDivisionError else Inr (real_of_int a / real_of_int b))"

record cache_stats =
  stats_cache_size :: int
  stats_hits :: int
  stats_misses :: int
  stats_hit_rate :: real

definition get_cache_stats :: "'v CachingLayer \<Rightarrow> error + cache_stats" where
  "get_cache_stats self =
     (let total = hits self + misses self in
      case (if total > 0 then truediv (hits self) total else Inr 0) of
        Inl e \<Rightarrow> Inl e
      | Inr hit_rate \<Rightarrow>
          Inr \<lparr>stats_cache_size = int (length (cache self)), stats_hits = hits self,
               stats_misses = misses self, stats_hit_rate = hit_rate\<rparr>)"

section \<open>BatchProcessor\<close>

text \<open>Python's \<open>xs[:n]\<close> and \<open>xs[n:]\<close>: a negative bound counts from the end.\<close>

definition slice_to :: "'a list \<Rightarrow> int \<Rightarrow> 'a list" where
  "slice_to xs n = (if 0 \<le> n then take (nat n) xs else take (nat (int (length xs) + n)) xs)"

definition slice_from :: "'a list \<Rightarrow> int \<Rightarrow> 'a list" where
  "slice_from xs n = (if 0 \<le> n then drop (nat n) xs else drop (nat (int (length xs) + n)) xs)"

record 'v BatchProcessor =
  bp_model :: "'v model"
  batch_size :: int
  max_wait_time :: real
  batch_queue :: "'v features list"
  last_batch_time :: real

text \<open>
  Each reading of \<open>time.time()\<close> is an argument of the function that makes it: \<open>now\<close> in
  the constructor, \<open>t_check\<close> in the test of \<open>add_request\<close>, \<open>t_done\<close> at the end of
  \<open>_process_batch\<close>.
\<close>

definition BatchProcessor_init :: "'v model \<Rightarrow> int \<Rightarrow> real \<Rightarrow> real \<Rightarrow> 'v BatchProcessor" where
  "BatchProcessor_init m bsize max_wait now =
     \<lparr>bp_model = m, batch_size = bsize, max_wait_time = max_wait, batch_queue = [],
      last_batch_time = now\<rparr>"

definition process_batch ::
  "'v BatchProcessor \<Rightarrow> real \<Rightarrow> (int list \<times> real list list) option \<times> 'v BatchProcessor" where
  "process_batch self t_done =
     (if batch_queue self = [] then (None, self)
      else
        (let batch = slice_to (batch_queue self) (batch_size self);
             rest = slice_from (batch_queue self) (batch_size self);
             (predictions, m1) = model_predict (bp_model self) batch;
             (probabilities, m2) = model_predict_proba m1 batch
         in (Some (predictions, probabilities),
             self\<lparr>batch_queue := rest, bp_model := m2, last_batch_time := t_done\<rparr>)))"

definition add_request ::
  "'v BatchProcessor \<Rightarrow> 'v features \<Rightarrow> real \<Rightarrow> real \<Rightarrow> 'v BatchProcessor" where
  "add_request self features t_check t_done =
     (let self1 = self\<lparr>batch_queue := batch_queue self @ [features]\<rparr>;
          should_process =
            (batch_size self1 \<le> int (length (batch_queue self1)) \<or>
             max_wait_time self1 \<le> t_check - last_batch_time self1)
      in if should_process \<and> batch_queue self1 \<noteq> [] then snd (process_batch self1 t_done)
         else self1)"

text \<open>
  The flush condition in the specification's words, for comparison with the test of
  \<open>add_request\<close>: the batch holds \<open>n_items\<close> items and its first item was admitted at
  \<open>opened_at\<close>.
\<close>

definition spec_flush_due :: "int \<Rightarrow> real \<Rightarrow> nat \<Rightarrow> real \<Rightarrow> real \<Rightarrow> bool" where
  "spec_flush_due bsize max_wait n_items now opened_at =
     (bsize \<le> int n_items \<or> max_wait \<le> now - opened_at)"

section \<open>AutoScaler\<close>

record AutoScaler =
  min_instances :: int
  max_instances :: int
  target_cpu :: real
  scale_up_threshold :: real
  scale_down_threshold :: real
  current_instances :: int

definition AutoScaler_init :: "int \<Rightarrow> int \<Rightarrow> real \<Rightarrow> real \<Rightarrow> real \<Rightarrow> AutoScaler" where
  "AutoScaler_init min_i max_i cpu up down =
     \<lparr>min_instances = min_i, max_instances = max_i, target_cpu = cpu,
      scale_up_threshold = up, scale_down_threshold = down, current_instances = min_i\<rparr>"

text \<open>The defaults of the keyword arguments the caller leaves out.\<close>

definition AutoScaler_init_default :: "int \<Rightarrow> int \<Rightarrow> AutoScaler" where
  "AutoScaler_init_default min_i max_i = AutoScaler_init min_i max_i 0.7 0.8 0.5"

text \<open>\<open>metrics.get(key, default)\<close> on a \<open>dict\<close> of numbers.\<close>

definition dict_get :: "(string \<rightharpoonup> real) \<Rightarrow> string \<Rightarrow> real \<Rightarrow> real" where
  "dict_get metrics k d = (case metrics k of Some v \<Rightarrow> v | None \<Rightarrow> d)"

text \<open>
  \<open>should_scale\<close> returns the decision and the object as the call leaves it. When the
  scale-up test holds and the count is at its maximum, control leaves the \<open>if\<close> and reaches
  the final \<open>return 0\<close>; the \<open>elif\<close> is not tried.
\<close>

definition should_scale :: "AutoScaler \<Rightarrow> (string \<rightharpoonup> real) \<Rightarrow> int \<times> AutoScaler" where
  "should_scale self metrics =
     (let cpu_usage = dict_get metrics ''cpu_usage'' 0;
          request_rate = dict_get metrics ''request_rate'' 0;
          avg_latency = dict_get metrics ''avg_latency_ms'' 0
      in if cpu_usage > scale_up_threshold self \<or> avg_latency > 1000 \<or> request_rate > 100 then
           (if current_instances self < max_instances self then
              (1, self\<lparr>current_instances :=
                    min (current_instances self + 1) (max_instances self)\<rparr>)
            else (0, self))
         else if cpu_usage < scale_down_threshold self \<and> avg_latency < 100 \<and> request_rate < 10
         then
           (if current_instances self > min_instances self then
              (- 1, self\<lparr>current_instances :=
                      max (current_instances self - 1) (min_instances self)\<rparr>)
            else (0, self))
         else (0, self))"

text \<open>
  Successive calls: the decision of each call with the instance count it leaves, and the
  final object.
\<close>

fun scale_trace :: "AutoScaler \<Rightarrow> (string \<rightharpoonup> real) list \<Rightarrow> (int \<times> int) list" where
  "scale_trace self [] = []"
| "scale_trace self (m # ms) =
     (let (d, self') = should_scale self m in (d, current_instances self') # scale_trace self' ms)"

fun scale_all :: "AutoScaler \<Rightarrow> (string \<rightharpoonup> real) list \<Rightarrow> AutoScaler" where
  "scale_all self [] = self"
| "scale_all self (m # ms) = scale_all (snd (should_scale self m)) ms"

section \<open>Construction\<close>

text \<open>
  A constructor call runs \<open>__init__\<close>. None of the three has a \<open>raise\<close> statement or a
  check of its arguments, so each call returns the object.
\<close>

definition new_CachingLayer :: "'v model \<Rightarrow> int \<Rightarrow> error + 'v CachingLayer" where
  "new_CachingLayer m capacity = Inr (CachingLayer_init m capacity)"

definition new_BatchProcessor ::
  "'v model \<Rightarrow> int \<Rightarrow> real \<Rightarrow> real \<Rightarrow> error + 'v BatchProcessor" where
  "new_BatchProcessor m bsize max_wait now = Inr (BatchProcessor_init m bsize max_wait now)"

definition new_AutoScaler :: "int \<Rightarrow> int \<Rightarrow> real \<Rightarrow> real \<Rightarrow> real \<Rightarrow> error + AutoScaler" where
  "new_AutoScaler min_i max_i cpu up down = Inr (AutoScaler_init min_i max_i cpu up down)"

section \<open>A concrete model and digest for the examples\<close>

definition example_model :: "int model" where
  "example_model = \<lparr>predict_row = (\<lambda>f. sum_list (map snd f)), proba_row = (\<lambda>f. [1]), calls = []\<rparr>"

text \<open>An injective stand-in for the digest on the mappings used below: the keys, joined.\<close>

definition example_md5 :: "int features \<Rightarrow> string" where
  "example_md5 items = concat (map fst items)"

definition high_load :: "string \<rightharpoonup> real" where
  "high_load = [''cpu_usage'' \<mapsto> 0.9, ''request_rate'' \<mapsto> 150, ''avg_latency_ms'' \<mapsto> 1200]"

text \<open>A cache of capacity 2 after one request.\<close>

definition warm_cache :: "int CachingLayer" where
  "warm_cache = snd (predict example_md5 (CachingLayer_init example_model 2) [(''a'', 1)])"

text \<open>An AutoScaler with the default thresholds after one call under high load.\<close>

definition scaled_once :: AutoScaler where
  "scaled_once = snd (should_scale (AutoScaler_init_default 1 5) high_load)"

text \<open>An AutoScaler with a negative scale-up threshold after one call with no metrics.\<close>

definition eager_scaler :: AutoScaler where
  "eager_scaler = snd (should_scale (AutoScaler_init 1 5 0.7 (- 1) 0.5) Map.empty)"

section \<open>Invariants used in the proofs\<close>

definition cache_inv :: "'v CachingLayer \<Rightarrow> bool" where
  "cache_inv self =
     (int (length (cache self)) \<le> cache_size self \<and> distinct (map fst (cache self)))"

section \<open>Properties of CachingLayer\<close>

lemma predict_hit:
  assumes "map_of (cache self) (hash_features md5_str features) = Some r"
  shows "predict md5_str self features = (Inr r, self\<lparr>hits := hits self + 1\<rparr>)"
  using assms by (simp add: predict_def)

lemma predict_cache_size [simp]:
  "cache_size (snd (predict md5_str self features)) = cache_size self"
  by (simp add: predict_def model_predict_def model_predict_proba_def Let_def
      split: option.split list.split)

lemma keys_after_miss_full:
  assumes "distinct (map fst (p # ps))" and "k \<notin> fst ` set (p # ps)"
  shows "map fst (AList.update k v (AList.delete (fst p) (p # ps))) = map fst ps @ [k]"
proof -
  have "map fst (AList.delete (fst p) (p # ps)) = map fst ps"
    using assms(1) by (simp add: delete_keys)
  moreover have "k \<notin> set (map fst ps)"
    using assms(2) by auto
  ultimately show ?thesis
    by (simp add: update_keys delete_keys)
qed

lemma keys_after_miss_room:
  assumes "k \<notin> fst ` set al"
  shows "map fst (AList.update k v al) = map fst al @ [k]"
  using assms by (simp add: update_keys)

text \<open>The keys of the cache after one call, by cases on the three paths of \<open>predict\<close>.\<close>

lemma predict_keys:
  assumes "distinct (map fst (cache self))"
  shows "map fst (cache (snd (predict md5_str self features))) =
     (let k = hash_features md5_str features; ks = map fst (cache self) in
      if k \<in> set ks then ks
      else if cache_size self \<le> int (length ks) then (if ks = [] then [] else tl ks @ [k])
      else ks @ [k])"
proof (cases "map_of (cache self) (hash_features md5_str features)")
  case (Some r)
  then have "hash_features md5_str features \<in> set (map fst (cache self))"
    by (metis map_of_eq_None_iff option.distinct(1) set_map)
  with Some show ?thesis
    by (simp add: predict_hit)
next
  case None
  then have notin: "hash_features md5_str features \<notin> fst ` set (cache self)"
    by (simp add: map_of_eq_None_iff)
  show ?thesis
  proof (cases "cache self")
    case Nil
    with None show ?thesis
      by (simp add: predict_def model_predict_def model_predict_proba_def Let_def)
  next
    case (Cons p ps)
    have full: "map fst (AList.update (hash_features md5_str features) v
        (AList.delete (fst p) (p # ps))) = map fst ps @ [hash_features md5_str features]" for v
      using keys_after_miss_full [of p ps] assms notin Cons by simp
    have room: "map fst (AList.update (hash_features md5_str features) v (p # ps)) =
        map fst (p # ps) @ [hash_features md5_str features]" for v
      using keys_after_miss_room [of _ "p # ps"] notin Cons by simp
    from None notin Cons show ?thesis
      by (simp add: predict_def model_predict_def model_predict_proba_def Let_def full room
          del: AList.update.simps AList.delete_simps)
  qed
qed

lemma predict_inv:
  assumes "cache_inv self" and "0 < cache_size self"
  shows "cache_inv (snd (predict md5_str self features))"
proof -
  have d: "distinct (map fst (cache self))" and l: "int (length (cache self)) \<le> cache_size self"
    using assms(1) by (simp_all add: cache_inv_def)
  let ?s = "snd (predict md5_str self features)"
  have "int (length (map fst (cache ?s))) \<le> cache_size self"
    unfolding predict_keys [OF d] using l assms(2) by (auto simp: Let_def)
  moreover have "distinct (map fst (cache ?s))"
  proof (cases "map fst (cache self)")
    case Nil
    then show ?thesis
      unfolding predict_keys [OF d] by (simp add: Let_def)
  next
    case (Cons k ks)
    with d have "distinct (k # ks)"
      by simp
    with Cons show ?thesis
      unfolding predict_keys [OF d] by (auto simp: Let_def)
  qed
  ultimately show ?thesis
    by (simp add: cache_inv_def)
qed

lemma run_predicts_inv:
  assumes "cache_inv self" and "0 < cache_size self"
  shows "cache_inv (run_predicts md5_str self fs)"
  using assms
proof (induction fs arbitrary: self)
  case Nil
  then show ?case by simp
next
  case (Cons f fs)
  then show ?case
    by (simp add: predict_inv)
qed

text \<open>
  C2. In every state reached from a freshly constructed CachingLayer of positive capacity
  by a sequence of \<open>predict\<close> calls, the cache holds at most \<open>cache_size\<close> entries and no
  fingerprint occurs in two of them.
\<close>

theorem cache_bounded_and_keys_unique:
  assumes "0 < capacity"
  shows "int (length (cache (run_predicts md5_str (CachingLayer_init m capacity) fs))) \<le> capacity
    \<and> distinct (map fst (cache (run_predicts md5_str (CachingLayer_init m capacity) fs)))"
proof -
  have "cache_inv (CachingLayer_init m capacity)"
    using assms by (simp add: cache_inv_def CachingLayer_init_def)
  moreover have "cache_size (CachingLayer_init m capacity) = capacity"
    by (simp add: CachingLayer_init_def)
  ultimately have "cache_inv (run_predicts md5_str (CachingLayer_init m capacity) fs)"
    using assms run_predicts_inv by metis
  moreover have "cache_size (run_predicts md5_str s fs) = cache_size s" for s :: "'a CachingLayer"
    by (induction fs arbitrary: s) simp_all
  ultimately show ?thesis
    by (simp add: cache_inv_def CachingLayer_init_def)
qed

theorem cache_bounded_and_keys_unique_witness:
  "(0::int) < 2
   \<and> int (length (cache (run_predicts example_md5 (CachingLayer_init example_model 2)
        [[(''a'', 1)], [(''b'', 2)], [(''c'', 3)]]))) \<le> 2
   \<and> distinct (map fst (cache (run_predicts example_md5 (CachingLayer_init example_model 2)
        [[(''a'', 1)], [(''b'', 2)], [(''c'', 3)]])))"
  using cache_bounded_and_keys_unique [of 2 example_md5 example_model
      "[[(''a'', 1)], [(''b'', 2)], [(''c'', 3)]]"]
  by simp

section \<open>FIFO eviction\<close>

lemma latest_step_full:
  assumes "length (drop (length P - c) P) = c" and "0 < c"
  shows "tl (drop (length P - c) P) @ [k] = drop (length (P @ [k]) - c) (P @ [k])"
proof -
  from assms have le: "c \<le> length P"
    by simp
  with assms(2) have n: "length (P @ [k]) - c = Suc (length P - c)"
    by simp
  have inside: "Suc (length P - c) \<le> length P"
    using le assms(2) by simp
  have "tl (drop (length P - c) P) = drop (Suc (length P - c)) P"
    by (simp add: drop_Suc tl_drop)
  moreover have "drop (Suc (length P - c)) (P @ [k]) = drop (Suc (length P - c)) P @ [k]"
    using inside by (simp del: drop_Suc_Cons)
  ultimately show ?thesis
    unfolding n by simp
qed

lemma latest_step_room:
  assumes "length (drop (length P - c) P) < c"
  shows "drop (length P - c) P @ [k] = drop (length (P @ [k]) - c) (P @ [k])"
  using assms by simp

text \<open>One call: the keys after it are the latest insertions of the extended log.\<close>

lemma insertions_Cons:
  "insertions md5_str self (f # fs) =
     inserted_by md5_str self f @ insertions md5_str (snd (predict md5_str self f)) fs"
  by simp

lemma inserted_by_cases:
  assumes "cache_inv self" and "0 < cache_size self"
  shows "inserted_by md5_str self f =
     (if hash_features md5_str f \<in> set (map fst (cache self)) then [] else [hash_features md5_str f])"
proof -
  have d: "distinct (map fst (cache self))" and l: "int (length (cache self)) \<le> cache_size self"
    using assms(1) by (simp_all add: cache_inv_def)
  have "hash_features md5_str f \<in> set (map fst (cache (snd (predict md5_str self f))))"
    if "hash_features md5_str f \<notin> set (map fst (cache self))"
    unfolding predict_keys [OF d] using that l assms(2) by (auto simp: Let_def)
  then show ?thesis
    by (auto simp: inserted_by_def map_of_eq_None_iff)
qed

lemma predict_keys_latest:
  assumes "cache_inv self" and "0 < cache_size self"
    and "map fst (cache self) = drop (length P - nat (cache_size self)) P"
  shows "map fst (cache (snd (predict md5_str self f))) =
     drop (length (P @ inserted_by md5_str self f) - nat (cache_size self))
       (P @ inserted_by md5_str self f)"
proof -
  have d: "distinct (map fst (cache self))" and l: "int (length (cache self)) \<le> cache_size self"
    using assms(1) by (simp_all add: cache_inv_def)
  let ?k = "hash_features md5_str f" and ?ks = "map fst (cache self)" and ?c = "nat (cache_size self)"
  show ?thesis
  proof (cases "?k \<in> set ?ks")
    case True
    then show ?thesis
      unfolding predict_keys [OF d] inserted_by_cases [OF assms(1,2)] using assms(3)
      by (simp add: Let_def)
  next
    case False
    show ?thesis
    proof (cases "cache_size self \<le> int (length ?ks)")
      case full: True
      with l have len: "length (drop (length P - ?c) P) = ?c"
        using assms(3) by (metis length_map nat_int order_antisym)
      with assms(2) have "?ks \<noteq> []"
        using assms(3) by auto
      moreover have "tl ?ks @ [?k] = drop (length (P @ [?k]) - ?c) (P @ [?k])"
        unfolding assms(3) using len assms(2) by (intro latest_step_full) simp_all
      ultimately show ?thesis
        unfolding predict_keys [OF d] inserted_by_cases [OF assms(1,2)] using False full
        by (simp add: Let_def)
    next
      case room: False
      then have "length (drop (length P - ?c) P) < ?c"
        using assms(3) by (metis length_map not_le zless_nat_eq_int_zless)
      then have "?ks @ [?k] = drop (length (P @ [?k]) - ?c) (P @ [?k])"
        unfolding assms(3) by (rule latest_step_room)
      then show ?thesis
        unfolding predict_keys [OF d] inserted_by_cases [OF assms(1,2)] using False room
        by (simp add: Let_def)
    qed
  qed
qed

lemma run_predicts_keys_latest:
  assumes "cache_inv self" and "0 < cache_size self"
    and "map fst (cache self) = drop (length P - nat (cache_size self)) P"
  shows "map fst (cache (run_predicts md5_str self fs)) =
     drop (length (P @ insertions md5_str self fs) - nat (cache_size self))
       (P @ insertions md5_str self fs)"
  using assms
proof (induction fs arbitrary: self P)
  case Nil
  then show ?case by simp
next
  case (Cons f fs)
  let ?s = "snd (predict md5_str self f)"
  have "cache_inv ?s" and "0 < cache_size ?s"
    using Cons.prems(1,2) by (simp_all add: predict_inv)
  moreover have "map fst (cache ?s) =
      drop (length (P @ inserted_by md5_str self f) - nat (cache_size ?s))
        (P @ inserted_by md5_str self f)"
    using predict_keys_latest [OF Cons.prems] by simp
  ultimately have "map fst (cache (run_predicts md5_str ?s fs)) =
      drop (length ((P @ inserted_by md5_str self f) @ insertions md5_str ?s fs)
              - nat (cache_size ?s))
        ((P @ inserted_by md5_str self f) @ insertions md5_str ?s fs)"
    by (rule Cons.IH)
  then show ?case
    by (simp add: insertions_Cons del: insertions.simps)
qed

lemma predict_keys_subset:
  assumes "cache_inv self" and "0 < cache_size self"
  shows "set (map fst (cache (snd (predict md5_str self f)))) \<subseteq>
     set (map fst (cache self)) \<union> set (inserted_by md5_str self f)"
proof -
  have d: "distinct (map fst (cache self))"
    using assms(1) by (simp add: cache_inv_def)
  show ?thesis
  proof (cases "map fst (cache self)")
    case Nil
    then show ?thesis
      unfolding predict_keys [OF d] inserted_by_cases [OF assms] by (simp add: Let_def)
  next
    case (Cons k ks)
    then show ?thesis
      unfolding predict_keys [OF d] inserted_by_cases [OF assms] by (auto simp: Let_def)
  qed
qed

lemma requested_keys_covered:
  assumes "cache_inv self" and "0 < cache_size self"
  shows "hash_features md5_str ` set fs \<subseteq>
     set (insertions md5_str self fs) \<union> set (map fst (cache self))"
  using assms
proof (induction fs arbitrary: self)
  case Nil
  then show ?case by simp
next
  case (Cons f fs)
  let ?s = "snd (predict md5_str self f)"
  have "cache_inv ?s" and "0 < cache_size ?s"
    using Cons.prems by (simp_all add: predict_inv)
  then have "hash_features md5_str ` set fs \<subseteq>
      set (insertions md5_str ?s fs) \<union> set (map fst (cache ?s))"
    by (rule Cons.IH)
  moreover note predict_keys_subset [OF Cons.prems, of md5_str f]
  moreover have "hash_features md5_str f \<in>
      set (map fst (cache self)) \<union> set (inserted_by md5_str self f)"
    by (simp add: inserted_by_cases [OF Cons.prems])
  ultimately show ?case
    unfolding insertions_Cons by auto
qed

lemma fresh_keys_all_inserted:
  assumes "cache_inv self" and "0 < cache_size self"
    and "distinct (map (hash_features md5_str) fs)"
    and "\<forall>g\<in>set fs. hash_features md5_str g \<notin> set (map fst (cache self))"
  shows "insertions md5_str self fs = map (hash_features md5_str) fs"
  using assms
proof (induction fs arbitrary: self)
  case Nil
  then show ?case by simp
next
  case (Cons f fs)
  let ?s = "snd (predict md5_str self f)"
  have absent: "hash_features md5_str f \<notin> set (map fst (cache self))"
    using Cons.prems(4) by simp
  then have new: "inserted_by md5_str self f = [hash_features md5_str f]"
    unfolding inserted_by_cases [OF Cons.prems(1,2)] by (simp only: if_False)
  have sub: "set (map fst (cache ?s)) \<subseteq>
      set (map fst (cache self)) \<union> set [hash_features md5_str f]"
    using predict_keys_subset [OF Cons.prems(1,2), of md5_str f] unfolding new .
  have "cache_inv ?s" and "0 < cache_size ?s"
    using Cons.prems(1,2) by (simp_all add: predict_inv)
  moreover have "distinct (map (hash_features md5_str) fs)"
    using Cons.prems(3) by simp
  moreover have "\<forall>g\<in>set fs. hash_features md5_str g \<notin> set (map fst (cache ?s))"
  proof
    fix g
    assume g: "g \<in> set fs"
    have "hash_features md5_str f \<notin> hash_features md5_str ` set fs"
      using Cons.prems(3) by simp
    with g have "hash_features md5_str g \<noteq> hash_features md5_str f"
      by (metis imageI)
    moreover have "hash_features md5_str g \<notin> set (map fst (cache self))"
      using Cons.prems(4) g by simp
    ultimately show "hash_features md5_str g \<notin> set (map fst (cache ?s))"
      using sub by auto
  qed
  ultimately have "insertions md5_str ?s fs = map (hash_features md5_str) fs"
    by (rule Cons.IH)
  with new show ?case
    unfolding insertions_Cons by simp
qed

lemma predict_miss_counters:
  assumes "hash_features md5_str f \<notin> fst ` set (cache self)"
  shows "misses (snd (predict md5_str self f)) = misses self + 1"
proof -
  from assms have "map_of (cache self) (hash_features md5_str f) = None"
    by (simp add: map_of_eq_None_iff)
  then show ?thesis
    by (simp add: predict_def model_predict_def model_predict_proba_def Let_def split: list.split)
qed

lemma predict_hit_counters:
  assumes "hash_features md5_str f \<in> fst ` set (cache self)"
  shows "hits (snd (predict md5_str self f)) = hits self + 1"
proof -
  from assms have "map_of (cache self) (hash_features md5_str f) \<noteq> None"
    by (simp add: map_of_eq_None_iff)
  then show ?thesis
    by (auto simp: predict_hit)
qed

lemma init_inv:
  assumes "0 < capacity"
  shows "cache_inv (CachingLayer_init m capacity)" and "0 < cache_size (CachingLayer_init m capacity)"
    and "map fst (cache (CachingLayer_init m capacity)) =
      drop (length ([] :: string list) - nat (cache_size (CachingLayer_init m capacity))) []"
  using assms by (simp_all add: cache_inv_def CachingLayer_init_def)

lemma fresh_run_latest:
  assumes "0 < capacity"
  shows "map fst (cache (run_predicts md5_str (CachingLayer_init m capacity) fs)) =
     drop (length (insertions md5_str (CachingLayer_init m capacity) fs) - nat capacity)
       (insertions md5_str (CachingLayer_init m capacity) fs)"
  using run_predicts_keys_latest [OF init_inv [OF assms], where m1 = m and md5_str = md5_str
      and fs = fs]
  by (simp add: CachingLayer_init_def)

lemma fresh_run_distinct_keys:
  assumes "0 < capacity" and "distinct (map (hash_features md5_str) fs)"
  shows "insertions md5_str (CachingLayer_init m capacity) fs = map (hash_features md5_str) fs"
proof -
  have "\<forall>g\<in>set fs. hash_features md5_str g \<notin>
      set (map fst (cache (CachingLayer_init m capacity)))"
    by (simp add: CachingLayer_init_def)
  with init_inv(1,2) [OF assms(1)] assms(2) show ?thesis
    by (intro fresh_keys_all_inserted)
qed

lemma fresh_run_full:
  assumes "0 < capacity" and "capacity < int (card (hash_features md5_str ` set fs))"
  shows "int (length (cache (run_predicts md5_str (CachingLayer_init m capacity) fs))) = capacity"
proof -
  let ?L = "insertions md5_str (CachingLayer_init m capacity) fs"
  have "hash_features md5_str ` set fs \<subseteq> set ?L"
    using requested_keys_covered [OF init_inv(1,2) [OF assms(1)], of md5_str fs m]
    by (simp add: CachingLayer_init_def)
  then have "card (hash_features md5_str ` set fs) \<le> card (set ?L)"
    by (simp add: card_mono)
  also have "\<dots> \<le> length ?L"
    by (rule card_length)
  finally have "nat capacity \<le> length ?L"
    using assms(2) by linarith
  then have "length (drop (length ?L - nat capacity) ?L) = nat capacity"
    by simp
  then have "length (map fst (cache (run_predicts md5_str (CachingLayer_init m capacity) fs)))
      = nat capacity"
    by (simp only: fresh_run_latest [OF assms(1)])
  then show ?thesis
    using assms(1) by simp
qed

lemma abc_keys:
  assumes "distinct [hash_features md5_str a, hash_features md5_str b, hash_features md5_str c]"
  shows "map fst (cache (run_predicts md5_str (CachingLayer_init m 2) [a, b, c])) =
     [hash_features md5_str b, hash_features md5_str c]"
proof -
  have "insertions md5_str (CachingLayer_init m 2) [a, b, c] =
      map (hash_features md5_str) [a, b, c]"
    using assms by (intro fresh_run_distinct_keys) simp_all
  moreover have "map fst (cache (run_predicts md5_str (CachingLayer_init m 2) [a, b, c])) =
      drop (length (insertions md5_str (CachingLayer_init m 2) [a, b, c]) - nat 2)
        (insertions md5_str (CachingLayer_init m 2) [a, b, c])"
    by (rule fresh_run_latest) simp
  ultimately show ?thesis
    by (simp del: insertions.simps run_predicts.simps)
qed

text \<open>
  C1. In a CachingLayer of positive capacity, after any sequence of requests the keys of
  the cache are, in order, the last \<open>capacity\<close> keys inserted; a request whose key is
  held inserts nothing and moves nothing (FIFO, not LRU). Requests with distinct keys
  insert each key once, in order. Once more distinct keys than the capacity have been
  requested, the cache holds exactly \<open>capacity\<close> distinct keys. With capacity 2 and three
  requests a, b, c of distinct keys, the cache holds b and c: a lookup of a in that state
  is a miss, lookups of b and of c are hits.
\<close>

theorem fifo_keeps_latest_insertions:
  assumes "0 < capacity"
  shows "map fst (cache (run_predicts md5_str (CachingLayer_init m capacity) fs)) =
       drop (length (insertions md5_str (CachingLayer_init m capacity) fs) - nat capacity)
         (insertions md5_str (CachingLayer_init m capacity) fs)
     \<and> (distinct (map (hash_features md5_str) fs) \<longrightarrow>
          insertions md5_str (CachingLayer_init m capacity) fs = map (hash_features md5_str) fs)
     \<and> (capacity < int (card (hash_features md5_str ` set fs)) \<longrightarrow>
          int (length (cache (run_predicts md5_str (CachingLayer_init m capacity) fs))) = capacity
          \<and> distinct (map fst (cache (run_predicts md5_str (CachingLayer_init m capacity) fs))))
     \<and> (distinct [hash_features md5_str a, hash_features md5_str b, hash_features md5_str c] \<longrightarrow>
          map fst (cache (run_predicts md5_str (CachingLayer_init m 2) [a, b, c])) =
            [hash_features md5_str b, hash_features md5_str c]
          \<and> misses (snd (predict md5_str (run_predicts md5_str (CachingLayer_init m 2) [a, b, c]) a))
              = misses (run_predicts md5_str (CachingLayer_init m 2) [a, b, c]) + 1
          \<and> hits (snd (predict md5_str (run_predicts md5_str (CachingLayer_init m 2) [a, b, c]) b))
              = hits (run_predicts md5_str (CachingLayer_init m 2) [a, b, c]) + 1
          \<and> hits (snd (predict md5_str (run_predicts md5_str (CachingLayer_init m 2) [a, b, c]) c))
              = hits (run_predicts md5_str (CachingLayer_init m 2) [a, b, c]) + 1)"
proof (intro conjI impI)
  show "map fst (cache (run_predicts md5_str (CachingLayer_init m capacity) fs)) =
       drop (length (insertions md5_str (CachingLayer_init m capacity) fs) - nat capacity)
         (insertions md5_str (CachingLayer_init m capacity) fs)"
    using assms by (rule fresh_run_latest)
next
  assume "distinct (map (hash_features md5_str) fs)"
  with assms show "insertions md5_str (CachingLayer_init m capacity) fs =
      map (hash_features md5_str) fs"
    by (rule fresh_run_distinct_keys)
next
  assume "capacity < int (card (hash_features md5_str ` set fs))"
  with assms show
    "int (length (cache (run_predicts md5_str (CachingLayer_init m capacity) fs))) = capacity"
    by (rule fresh_run_full)
next
  have "cache_inv (run_predicts md5_str (CachingLayer_init m capacity) fs)"
    using init_inv(1,2) [OF assms] by (rule run_predicts_inv)
  then show "distinct (map fst (cache (run_predicts md5_str (CachingLayer_init m capacity) fs)))"
    by (simp add: cache_inv_def)
next
  assume d: "distinct [hash_features md5_str a, hash_features md5_str b, hash_features md5_str c]"
  let ?s = "run_predicts md5_str (CachingLayer_init m 2) [a, b, c]"
  have keys: "map fst (cache ?s) = [hash_features md5_str b, hash_features md5_str c]"
    using d by (rule abc_keys)
  then show "map fst (cache ?s) = [hash_features md5_str b, hash_features md5_str c]" .
  have k: "fst ` set (cache ?s) = {hash_features md5_str b, hash_features md5_str c}"
    using keys by (metis list.set(1) list.set(2) set_map insert_commute)
  show "misses (snd (predict md5_str ?s a)) = misses ?s + 1"
    using d k by (intro predict_miss_counters) simp
  show "hits (snd (predict md5_str ?s b)) = hits ?s + 1"
    using k by (intro predict_hit_counters) simp
  show "hits (snd (predict md5_str ?s c)) = hits ?s + 1"
    using k by (intro predict_hit_counters) simp
qed


lemma example_hashes:
  "hash_features example_md5 [(''a'', 1)] = ''a''"
  "hash_features example_md5 [(''b'', 2)] = ''b''"
  "hash_features example_md5 [(''c'', 3)] = ''c''"
  by (simp_all add: hash_features_def example_md5_def)

theorem fifo_keeps_latest_insertions_witness:
  "(0::int) < 2
   \<and> distinct (map (hash_features example_md5) [[(''a'', 1)], [(''b'', 2)], [(''c'', 3)]])
   \<and> 2 < int (card (hash_features example_md5 ` set [[(''a'', 1)], [(''b'', 2)], [(''c'', 3)]]))
   \<and> distinct [hash_features example_md5 [(''a'', 1)], hash_features example_md5 [(''b'', 2)],
        hash_features example_md5 [(''c'', 3)]]
   \<and> insertions example_md5 (CachingLayer_init example_model 2)
        [[(''a'', 1)], [(''b'', 2)], [(''c'', 3)]] = [''a'', ''b'', ''c'']
   \<and> map fst (cache (run_predicts example_md5 (CachingLayer_init example_model 2)
        [[(''a'', 1)], [(''b'', 2)], [(''c'', 3)]])) = [''b'', ''c'']
   \<and> int (length (cache (run_predicts example_md5 (CachingLayer_init example_model 2)
        [[(''a'', 1)], [(''b'', 2)], [(''c'', 3)]]))) = 2
   \<and> misses (snd (predict example_md5 (run_predicts example_md5 (CachingLayer_init example_model 2)
        [[(''a'', 1)], [(''b'', 2)], [(''c'', 3)]]) [(''a'', 1)])) =
       misses (run_predicts example_md5 (CachingLayer_init example_model 2)
        [[(''a'', 1)], [(''b'', 2)], [(''c'', 3)]]) + 1
   \<and> hits (snd (predict example_md5 (run_predicts example_md5 (CachingLayer_init example_model 2)
        [[(''a'', 1)], [(''b'', 2)], [(''c'', 3)]]) [(''b'', 2)])) =
       hits (run_predicts example_md5 (CachingLayer_init example_model 2)
        [[(''a'', 1)], [(''b'', 2)], [(''c'', 3)]]) + 1"
proof -
  have pos: "(0::int) < 2"
    by simp
  have d: "distinct (map (hash_features example_md5) [[(''a'', 1)], [(''b'', 2)], [(''c'', 3)]])"
    by (simp add: example_hashes)
  have c: "2 < int (card (hash_features example_md5 ` set [[(''a'', 1)], [(''b'', 2)], [(''c'', 3)]]))"
    by (simp add: example_hashes)
  have d3: "distinct [hash_features example_md5 [(''a'', 1)], hash_features example_md5 [(''b'', 2)],
        hash_features example_md5 [(''c'', 3)]]"
    by (simp add: example_hashes)
  from fifo_keeps_latest_insertions [OF pos, where md5_str = example_md5 and m = example_model
      and fs = "[[(''a'', 1)], [(''b'', 2)], [(''c'', 3)]]"
      and a = "[(''a'', 1)]" and b = "[(''b'', 2)]" and c = "[(''c'', 3)]"] d c d3
  show ?thesis
    by (simp add: example_hashes del: run_predicts.simps insertions.simps)
qed

text \<open>
  C10. When the fingerprint of the request is in the cache, \<open>predict\<close> returns the stored
  result and adds one to \<open>hits\<close>. Nothing else changes: the entries of the cache and their
  order, \<open>misses\<close>, the capacity, and the model, whose trace of calls stays as it was.
\<close>

theorem hit_leaves_all_but_hits:
  assumes "hash_features md5_str features \<in> fst ` set (cache self)"
  shows "\<exists>r. map_of (cache self) (hash_features md5_str features) = Some r
      \<and> predict md5_str self features = (Inr r, self\<lparr>hits := hits self + 1\<rparr>)
      \<and> hits (snd (predict md5_str self features)) = hits self + 1
      \<and> cache (snd (predict md5_str self features)) = cache self
      \<and> misses (snd (predict md5_str self features)) = misses self
      \<and> cache_size (snd (predict md5_str self features)) = cache_size self
      \<and> model (snd (predict md5_str self features)) = model self
      \<and> calls (model (snd (predict md5_str self features))) = calls (model self)"
proof -
  from assms have "map_of (cache self) (hash_features md5_str features) \<noteq> None"
    by (simp add: map_of_eq_None_iff)
  then obtain r where "map_of (cache self) (hash_features md5_str features) = Some r"
    by blast
  then show ?thesis
    by (simp add: predict_hit)
qed

lemma warm_cache_fields:
  "cache warm_cache = [(''a'', \<lparr>prediction = 1, probability = [1]\<rparr>)]"
  "hits warm_cache = 0"
  by (simp_all add: warm_cache_def predict_def hash_features_def example_md5_def Let_def
      CachingLayer_init_def model_predict_def model_predict_proba_def example_model_def)

theorem hit_leaves_all_but_hits_witness:
  "hash_features example_md5 [(''a'', 1)] \<in> fst ` set (cache warm_cache)
   \<and> predict example_md5 warm_cache [(''a'', 1)] =
       (Inr \<lparr>prediction = 1, probability = [1]\<rparr>, warm_cache\<lparr>hits := 1\<rparr>)
   \<and> calls (model (snd (predict example_md5 warm_cache [(''a'', 1)]))) = calls (model warm_cache)"
proof -
  have h: "hash_features example_md5 [(''a'', 1)] \<in> fst ` set (cache warm_cache)"
    by (simp add: warm_cache_fields hash_features_def example_md5_def)
  have m: "map_of (cache warm_cache) (hash_features example_md5 [(''a'', 1)]) =
      Some \<lparr>prediction = 1, probability = [1]\<rparr>"
    by (simp add: warm_cache_fields hash_features_def example_md5_def)
  from hit_leaves_all_but_hits [OF h] m show ?thesis
    using h by (auto simp: warm_cache_fields)
qed

section \<open>Properties of the fingerprint\<close>

text \<open>
  C6. Two feature mappings with the same key-value pairs, whatever the order in which
  their keys were inserted, have the same fingerprint: \<open>_hash_features\<close> sorts the items
  before it prints and digests them.
\<close>

theorem fingerprint_order_independent:
  assumes "distinct (map fst xs)" and "distinct (map fst ys)" and "set xs = set ys"
  shows "hash_features md5_str xs = hash_features md5_str ys"
proof -
  have "distinct xs" and "distinct ys"
    using assms(1,2) by (simp_all add: distinct_map)
  then have "mset xs = mset ys"
    using assms(3) by (simp add: set_eq_iff_mset_eq_distinct)
  then have "mset xs = mset (sort_key fst ys)"
    by simp
  moreover have "inj_on fst (set xs)"
    using assms(1) by (simp add: distinct_map)
  moreover have "sorted (map fst (sort_key fst ys))"
    by simp
  ultimately have "sort_key fst xs = sort_key fst ys"
    by (rule sort_key_inj_key_eq)
  then show ?thesis
    by (simp add: hash_features_def)
qed

theorem fingerprint_order_independent_witness:
  "distinct (map fst [(''a'', 1::int), (''b'', 2)])
   \<and> distinct (map fst [(''b'', 2::int), (''a'', 1)])
   \<and> set [(''a'', 1::int), (''b'', 2)] = set [(''b'', 2), (''a'', 1)]
   \<and> hash_features example_md5 [(''a'', 1), (''b'', 2)] =
       hash_features example_md5 [(''b'', 2), (''a'', 1)]"
proof -
  have s: "set [(''a'', 1::int), (''b'', 2)] = set [(''b'', 2), (''a'', 1)]"
    by auto
  have d1: "distinct (map fst [(''a'', 1::int), (''b'', 2)])"
    by simp
  have d2: "distinct (map fst [(''b'', 2::int), (''a'', 1)])"
    by simp
  from fingerprint_order_independent [OF d1 d2 s, of example_md5] s d1 d2 show ?thesis
    by blast
qed

section \<open>Properties of get\_cache\_stats\<close>

lemma predict_counts_lookup:
  "hits (snd (predict md5_str self features)) + misses (snd (predict md5_str self features)) =
     hits self + misses self + 1"
  by (simp add: predict_def model_predict_def model_predict_proba_def Let_def
      split: option.split list.split)

lemma run_predicts_counts_lookups:
  "hits (run_predicts md5_str self fs) + misses (run_predicts md5_str self fs) =
     hits self + misses self + int (length fs)"
  by (induction fs arbitrary: self) (simp_all add: predict_counts_lookup)

text \<open>
  C8. \<open>get_cache_stats\<close> never raises: in every state it returns the hit rate
  \<open>hits / (hits + misses)\<close> when the sum is positive and 0 otherwise. After the requests
  \<open>fs\<close> on a fresh CachingLayer the sum is the number of lookups made, so the rate is the
  quotient when a lookup has occurred and 0 when none has.
\<close>

theorem get_cache_stats_hit_rate:
  "get_cache_stats self =
     Inr \<lparr>stats_cache_size = int (length (cache self)), stats_hits = hits self,
          stats_misses = misses self,
          stats_hit_rate = (if 0 < hits self + misses self
             then real_of_int (hits self) / real_of_int (hits self + misses self) else 0)\<rparr>
   \<and> hits (run_predicts md5_str (CachingLayer_init m capacity) fs)
       + misses (run_predicts md5_str (CachingLayer_init m capacity) fs) = int (length fs)
   \<and> get_cache_stats (run_predicts md5_str (CachingLayer_init m capacity) fs) =
       Inr \<lparr>stats_cache_size =
              int (length (cache (run_predicts md5_str (CachingLayer_init m capacity) fs))),
            stats_hits = hits (run_predicts md5_str (CachingLayer_init m capacity) fs),
            stats_misses = misses (run_predicts md5_str (CachingLayer_init m capacity) fs),
            stats_hit_rate = (if fs = [] then 0
              else real_of_int (hits (run_predicts md5_str (CachingLayer_init m capacity) fs))
                   / real (length fs))\<rparr>"
proof -
  have general: "get_cache_stats s =
     Inr \<lparr>stats_cache_size = int (length (cache s)), stats_hits = hits s,
          stats_misses = misses s,
          stats_hit_rate = (if 0 < hits s + misses s
             then real_of_int (hits s) / real_of_int (hits s + misses s) else 0)\<rparr>"
    for s :: "'c CachingLayer"
    by (simp add: get_cache_stats_def truediv_def)
  have total: "hits (run_predicts md5_str (CachingLayer_init m capacity) fs)
       + misses (run_predicts md5_str (CachingLayer_init m capacity) fs) = int (length fs)"
    by (simp add: run_predicts_counts_lookups CachingLayer_init_def)
  show ?thesis
    using general [of self] total
    by (simp add: general [of "run_predicts md5_str (CachingLayer_init m capacity) fs"])
qed

section \<open>Properties of BatchProcessor\<close>

lemma slice_to_length:
  assumes "0 \<le> n"
  shows "int (length (slice_to xs n)) \<le> n"
  using assms by (auto simp: slice_to_def min_def)

text \<open>
  C3, as the code has it. \<open>add_request\<close> appends the item and then flushes exactly when the
  queue, with the new item, has reached \<open>batch_size\<close> or the time since
  \<open>last_batch_time\<close> is at least \<open>max_wait_time\<close>. \<open>last_batch_time\<close> is the time of
  construction or of the end of the last flush, not the time the first item of the batch
  was admitted. The flush hands the first \<open>batch_size\<close> items to the model, keeps the rest
  and sets \<open>last_batch_time\<close>; a batch size that is not negative bounds the batch. The test
  is made in the call itself, with the clock as that call reads it.
\<close>

theorem flush_on_admission:
  "add_request self features t_check t_done =
     (if batch_size self \<le> int (length (batch_queue self @ [features]))
         \<or> max_wait_time self \<le> t_check - last_batch_time self
      then self\<lparr>batch_queue := slice_from (batch_queue self @ [features]) (batch_size self),
             bp_model := (bp_model self)\<lparr>calls := calls (bp_model self) @
               [Predict (slice_to (batch_queue self @ [features]) (batch_size self)),
                PredictProba (slice_to (batch_queue self @ [features]) (batch_size self))]\<rparr>,
             last_batch_time := t_done\<rparr>
      else self\<lparr>batch_queue := batch_queue self @ [features]\<rparr>)
   \<and> (0 \<le> batch_size self \<longrightarrow>
        int (length (slice_to (batch_queue self @ [features]) (batch_size self))) \<le> batch_size self)"
proof -
  have "int (length (slice_to (batch_queue self @ [features]) (batch_size self))) \<le> batch_size self"
    if "0 \<le> batch_size self"
    using that by (rule slice_to_length)
  then show ?thesis
    by (simp add: add_request_def process_batch_def model_predict_def model_predict_proba_def
        Let_def)
qed

theorem flush_on_admission_witness:
  "(0::int) \<le> batch_size (BatchProcessor_init example_model 3 10 0)
   \<and> int (length (slice_to (batch_queue (BatchProcessor_init example_model 3 10 0) @ [[(''x'', 1)]])
         (batch_size (BatchProcessor_init example_model 3 10 0))))
       \<le> batch_size (BatchProcessor_init example_model 3 10 0)
   \<and> batch_queue (add_request (BatchProcessor_init example_model 3 10 0) [(''x'', 1)] 4 5)
       = [[(''x'', 1)]]"
  using flush_on_admission [of "BatchProcessor_init example_model 3 10 0" "[(''x'', 1)]" 4 5]
  by (simp add: BatchProcessor_init_def)

text \<open>
  The claim C3 as stated fails: a BatchProcessor with batch size 3 and a wait of 10,
  constructed at time 0, flushes its first item at once when that item arrives at time 15,
  although the batch then holds one item that has waited for no time.
\<close>

theorem flush_before_first_item_waited:
  "calls (bp_model (add_request (BatchProcessor_init example_model 3 10 0) [(''x'', 1)] 15 15))
     = [Predict [[(''x'', 1)]], PredictProba [[(''x'', 1)]]]
   \<and> \<not> spec_flush_due 3 10 1 15 15"
  by (simp add: add_request_def process_batch_def model_predict_def model_predict_proba_def
      slice_to_def Let_def BatchProcessor_init_def example_model_def spec_flush_due_def)

section \<open>Properties of AutoScaler\<close>

lemma should_scale_bounds_fixed:
  "min_instances (snd (should_scale self metrics)) = min_instances self
   \<and> max_instances (snd (should_scale self metrics)) = max_instances self"
  by (simp add: should_scale_def Let_def)

lemma should_scale_inv:
  assumes "min_instances self \<le> current_instances self"
    and "current_instances self \<le> max_instances self"
  shows "min_instances self \<le> current_instances (snd (should_scale self metrics))
    \<and> current_instances (snd (should_scale self metrics)) \<le> max_instances self"
  using assms by (simp add: should_scale_def Let_def)

lemma scale_all_inv:
  assumes "min_instances self \<le> current_instances self"
    and "current_instances self \<le> max_instances self"
  shows "min_instances (scale_all self ms) = min_instances self
    \<and> max_instances (scale_all self ms) = max_instances self
    \<and> min_instances self \<le> current_instances (scale_all self ms)
    \<and> current_instances (scale_all self ms) \<le> max_instances self"
  using assms
proof (induction ms arbitrary: self)
  case Nil
  then show ?case by simp
next
  case (Cons m ms)
  let ?s = "snd (should_scale self m)"
  have "min_instances ?s \<le> current_instances ?s" "current_instances ?s \<le> max_instances ?s"
    using should_scale_inv [OF Cons.prems] should_scale_bounds_fixed [of self m] by simp_all
  from Cons.IH [OF this] show ?case
    using should_scale_bounds_fixed [of self m] by simp
qed

text \<open>
  C4. After any sequence of \<open>should_scale\<close> calls on an AutoScaler constructed with
  \<open>min_instances \<le> max_instances\<close>, whatever the metrics, the instance count lies between
  the two bounds.
\<close>

theorem instances_within_bounds:
  assumes "min_i \<le> max_i"
  shows "min_i \<le> current_instances (scale_all (AutoScaler_init min_i max_i cpu up down) ms)
    \<and> current_instances (scale_all (AutoScaler_init min_i max_i cpu up down) ms) \<le> max_i"
  using assms scale_all_inv [of "AutoScaler_init min_i max_i cpu up down" ms]
  by (simp add: AutoScaler_init_def)

theorem instances_within_bounds_witness:
  "(1::int) \<le> 5
   \<and> 1 \<le> current_instances (scale_all (AutoScaler_init 1 5 0.7 0.8 0.5) [high_load, Map.empty])
   \<and> current_instances (scale_all (AutoScaler_init 1 5 0.7 0.8 0.5) [high_load, Map.empty]) \<le> 5"
  using instances_within_bounds [of 1 5 "0.7" "0.8" "0.5" "[high_load, Map.empty]"]
  by simp

text \<open>
  C7. An AutoScaler constructed with \<open>min_instances = 1\<close>, \<open>max_instances = 5\<close> and the
  default thresholds, called five times with cpu\_usage 0.9, request\_rate 150 and
  avg\_latency\_ms 1200: the counts are 2, 3, 4, 5, 5, the first four decisions are 1 and
  the fifth is 0.
\<close>

theorem five_high_load_calls:
  "scale_trace (AutoScaler_init_default 1 5) [high_load, high_load, high_load, high_load, high_load]
     = [(1, 2), (1, 3), (1, 4), (1, 5), (0, 5)]"
  by (simp add: AutoScaler_init_default_def AutoScaler_init_def should_scale_def dict_get_def
      high_load_def)

lemma dict_get_absent:
  "metrics k = None \<Longrightarrow> dict_get (metrics(k \<mapsto> 0)) k' 0 = dict_get metrics k' 0"
  by (simp add: dict_get_def)

text \<open>
  C9, as the code has it. A metric that is absent is read as 0: adding it with the value 0
  changes neither the decision nor the new state. With no metrics at all, a count above
  the minimum, a positive scale-down threshold and a scale-up threshold that is not
  negative, the decision is -1 and the count goes down by one. The last condition is
  needed: 0 exceeds a negative scale-up threshold, and the scale-up test comes first.
\<close>

theorem absent_metric_reads_as_zero:
  "(metrics k = None \<longrightarrow> should_scale self (metrics(k \<mapsto> 0)) = should_scale self metrics)
   \<and> (min_instances self < current_instances self \<and> 0 < scale_down_threshold self
        \<and> 0 \<le> scale_up_threshold self \<longrightarrow>
      should_scale self Map.empty =
        (- 1, self\<lparr>current_instances := current_instances self - 1\<rparr>))"
  by (simp add: should_scale_def dict_get_absent) (simp add: dict_get_def)

lemma scaled_once_fields:
  "scaled_once = (AutoScaler_init_default 1 5)\<lparr>current_instances := 2\<rparr>"
  by (simp add: scaled_once_def AutoScaler_init_default_def AutoScaler_init_def should_scale_def
      dict_get_def high_load_def)

theorem absent_metric_reads_as_zero_witness:
  "(Map.empty :: string \<rightharpoonup> real) ''cpu_usage'' = None
   \<and> should_scale scaled_once [''cpu_usage'' \<mapsto> 0] = should_scale scaled_once Map.empty
   \<and> min_instances scaled_once < current_instances scaled_once
   \<and> 0 < scale_down_threshold scaled_once
   \<and> 0 \<le> scale_up_threshold scaled_once
   \<and> should_scale scaled_once Map.empty = (- 1, scaled_once\<lparr>current_instances := 1\<rparr>)"
  using absent_metric_reads_as_zero [of Map.empty "''cpu_usage''" scaled_once]
  by (simp add: scaled_once_fields AutoScaler_init_default_def AutoScaler_init_def)

text \<open>
  The claim C9 as stated fails: with \<open>scale_up_threshold = -1\<close> the AutoScaler has a count
  above its minimum and a positive scale-down threshold, and the call with no metrics
  returns 1 and raises the count from 2 to 3.
\<close>

theorem empty_metrics_scale_up_counterexample:
  "min_instances eager_scaler < current_instances eager_scaler
   \<and> 0 < scale_down_threshold eager_scaler
   \<and> should_scale eager_scaler Map.empty = (1, eager_scaler\<lparr>current_instances := 3\<rparr>)"
  by (simp add: eager_scaler_def AutoScaler_init_def should_scale_def dict_get_def)

section \<open>Properties of construction\<close>

text \<open>
  C5, as the code has it. No constructor raises: each returns the object for every
  configuration, also for a batch size or a capacity that is not positive and for
  \<open>min_instances > max_instances\<close>. A capacity that is not positive shows at the first
  \<open>predict\<close> call on the new cache, which raises \<open>StopIteration\<close>.
\<close>

theorem constructors_never_raise:
  "new_CachingLayer m capacity = Inr (CachingLayer_init m capacity)
   \<and> new_BatchProcessor m' bsize max_wait now = Inr (BatchProcessor_init m' bsize max_wait now)
   \<and> new_AutoScaler min_i max_i cpu up down = Inr (AutoScaler_init min_i max_i cpu up down)
   \<and> (capacity \<le> 0 \<longrightarrow>
        fst (predict md5_str (CachingLayer_init m capacity) features) = Inl StopIteration)"
  by (simp add: new_CachingLayer_def new_BatchProcessor_def new_AutoScaler_def predict_def
      CachingLayer_init_def model_predict_def model_predict_proba_def)

theorem constructors_never_raise_witness:
  "(0::int) \<le> 0
   \<and> new_CachingLayer example_model 0 = Inr (CachingLayer_init example_model 0)
   \<and> fst (predict example_md5 (CachingLayer_init example_model 0) [(''a'', 1)]) =
       Inl StopIteration"
  using constructors_never_raise [where m = example_model and capacity = 0
      and m' = example_model and bsize = 0 and max_wait = 0 and now = 0
      and min_i = 5 and max_i = 1 and cpu = 0 and up = 0 and down = 0
      and md5_str = example_md5 and features = "[(''a'', 1)]"]
  by simp

text \<open>
  The claim C5 as stated fails: a capacity of 0, a batch size of 0 and
  \<open>min_instances = 5 > max_instances = 1\<close> are accepted.
\<close>

theorem invalid_configurations_accepted:
  "new_CachingLayer example_model 0 \<noteq> Inl InvalidConfiguration
   \<and> new_BatchProcessor example_model 0 0.1 0 \<noteq> Inl InvalidConfiguration
   \<and> new_AutoScaler 5 1 0.7 0.8 0.5 \<noteq> Inl InvalidConfiguration"
  by (simp add: new_CachingLayer_def new_BatchProcessor_def new_AutoScaler_def)

end
